theory Spec2Isabelle
  imports Main "HOL-Library.Word" "HOL-Library.Multiset"
begin

unbundle bit_operations_syntax

section \<open>The index-scaling compute kernel\<close>

text \<open>
  The GLSL compute shader (version 450) of the repository:
  \<^verbatim>\<open>
  layout(push_constant) uniform PCData { int multiple; } pc;
  layout(set = 0, binding = 0) buffer Data { uint data[]; } buf;

  void main() {
      uint idx = gl_GlobalInvocationID.x;
      buf.data[idx] = idx * pc.multiple;
  }
  \<close>
  GLSL's \<open>int\<close> is a 32-bit two's complement integer and \<open>uint\<close> a 32-bit unsigned
  one, whose arithmetic wraps modulo \<open>2 ^ 32\<close>.
\<close>

type_synonym glsl_uint = "32 word"

text \<open>An \<open>int\<close> is kept as its 32 bits; \<open>sint\<close> reads the signed value.\<close>

type_synonym glsl_int = "32 word"

text \<open>The push-constant block \<open>PCData\<close> and the storage block \<open>Data\<close>; the
  runtime-sized array \<open>data[]\<close> is a list, its length fixed by the bound buffer.\<close>

record PCData =
  multiple :: glsl_int

record Data =
  data :: "glsl_uint list"

text \<open>A \<open>uvec3\<close>, the type of the built-in \<open>gl_GlobalInvocationID\<close>.\<close>

record uvec3 =
  vec_x :: glsl_uint
  vec_y :: glsl_uint
  vec_z :: glsl_uint

text \<open>
  In \<open>idx * pc.multiple\<close> the operands are \<open>uint\<close> and \<open>int\<close>: GLSL converts the
  \<open>int\<close> operand implicitly to \<open>uint\<close> (the signed value taken modulo \<open>2 ^ 32\<close>) and
  multiplies as \<open>uint\<close>.
\<close>

definition int_to_uint :: "glsl_int \<Rightarrow> glsl_uint" where
  "int_to_uint v = word_of_int (sint v)"

text \<open>
  One invocation of \<open>main\<close>. The store \<open>buf.data[idx] = ...\<close> to a slot outside
  the bound buffer is undefined behaviour, which the kernel does not guard against: it is
  the only failure of the model, the value \<open>None\<close>.
\<close>

definition main :: "PCData \<Rightarrow> uvec3 \<Rightarrow> Data \<Rightarrow> Data option" where
  "main pc gl_GlobalInvocationID buf =
     (let idx = vec_x gl_GlobalInvocationID in
      if unat idx < length (data buf)
      then Some (buf\<lparr>data := (data buf)[unat idx := idx * int_to_uint (multiple pc)]\<rparr>)
      else None)"

text \<open>
  The same invocation with its store recorded: the log gets one entry for each store that
  \<open>main\<close> performs, the identifier of the storing invocation and the slot stored to.
\<close>

type_synonym store_log = "(glsl_uint \<times> nat) list"

definition main_logged :: "PCData \<Rightarrow> uvec3 \<Rightarrow> Data \<times> store_log \<Rightarrow> (Data \<times> store_log) option" where
  "main_logged pc gl_GlobalInvocationID st =
     (let idx = vec_x gl_GlobalInvocationID in
      if unat idx < length (data (fst st))
      then Some ((fst st)\<lparr>data := (data (fst st))[unat idx := idx * int_to_uint (multiple pc)]\<rparr>,
                 snd st @ [(vec_x gl_GlobalInvocationID, unat idx)])
      else None)"

subsection \<open>The dispatch\<close>

text \<open>
  Modelled from the spec: the execution environment that dispatches the kernel is not part
  of the repository. The spec describes it as one invocation per output element, the
  invocation identifiers "unique and contiguous over the dispatch range", with the
  multiplier "passed once per dispatch". A dispatch of size \<open>N\<close> (the \<open>x\<close> component of
  \<open>gl_NumWorkGroups\<close>, a \<open>uint\<close>) therefore runs \<open>main\<close> once for each identifier
  \<open>(i, 0, 0)\<close> with \<open>i < N\<close>. \<open>run_invocations\<close> runs the invocations one after the
  other in the order of the list it is given, and fails as soon as one of them does;
  \<open>dispatch\<close> runs them in index order.
\<close>

definition global_id :: "glsl_uint \<Rightarrow> uvec3" where
  "global_id i = \<lparr>vec_x = i, vec_y = 0, vec_z = 0\<rparr>"

fun run_invocations :: "PCData \<Rightarrow> glsl_uint list \<Rightarrow> Data \<Rightarrow> Data option" where
  "run_invocations pc [] buf = Some buf"
| "run_invocations pc (i # ids) buf =
     (case main pc (global_id i) buf of
        None \<Rightarrow> None
      | Some buf' \<Rightarrow> run_invocations pc ids buf')"

definition invocation_ids :: "glsl_uint \<Rightarrow> glsl_uint list" where
  "invocation_ids N = map word_of_nat [0..<unat N]"

definition dispatch :: "PCData \<Rightarrow> glsl_uint \<Rightarrow> Data \<Rightarrow> Data option" where
  "dispatch pc N buf = run_invocations pc (invocation_ids N) buf"

fun run_invocations_logged ::
  "PCData \<Rightarrow> glsl_uint list \<Rightarrow> Data \<times> store_log \<Rightarrow> (Data \<times> store_log) option" where
  "run_invocations_logged pc [] st = Some st"
| "run_invocations_logged pc (i # ids) st =
     (case main_logged pc (global_id i) st of
        None \<Rightarrow> None
      | Some st' \<Rightarrow> run_invocations_logged pc ids st')"

definition dispatch_logged :: "PCData \<Rightarrow> glsl_uint \<Rightarrow> Data \<Rightarrow> (Data \<times> store_log) option" where
  "dispatch_logged pc N buf = run_invocations_logged pc (invocation_ids N) (buf, [])"

text \<open>The buffer that a run over the identifiers \<open>ids\<close> leaves: slot \<open>j\<close> holds
  \<open>j * multiple\<close> when \<open>j\<close> is one of the identifiers, and its old value otherwise.\<close>

definition scaled :: "PCData \<Rightarrow> glsl_uint set \<Rightarrow> Data \<Rightarrow> Data" where
  "scaled pc S buf =
     buf\<lparr>data := map (\<lambda>j. if j \<in> unat ` S then word_of_nat j * int_to_uint (multiple pc)
                           else data buf ! j) [0..<length (data buf)]\<rparr>"

section \<open>The enumeration tables\<close>

text \<open>
  The C headers of the repository declare enumerations, each enumerator with an explicit
  value: a decimal or hexadecimal literal, or the name of an enumerator declared earlier
  in the same enumeration (an alias). A declaration is the list of its enumerators in
  source order.
\<close>

datatype enum_init = Lit int | Ref string

type_synonym enum_decl = "(string \<times> enum_init) list"

text \<open>
  The values that C gives the enumerators, in declaration order. An enumerator has type
  \<open>int\<close>, so its value must be representable in 32 bits; a name can be declared once
  only; a name used as a value must have been declared before. A declaration that breaks
  one of these rules does not compile: \<open>None\<close>.
\<close>

fun enum_values :: "(string \<times> int) list \<Rightarrow> enum_decl \<Rightarrow> (string \<times> int) list option" where
  "enum_values env [] = Some env"
| "enum_values env ((name, Lit v) # es) =
     (if map_of env name \<noteq> None \<or> v < - (2 ^ 31) \<or> 2 ^ 31 \<le> v then None
      else enum_values (env @ [(name, v)]) es)"
| "enum_values env ((name, Ref c) # es) =
     (if map_of env name \<noteq> None then None
      else case map_of env c of
             None \<Rightarrow> None
           | Some v \<Rightarrow> enum_values (env @ [(name, v)]) es)"

definition enum_value :: "enum_decl \<Rightarrow> string \<Rightarrow> int option" where
  "enum_value decl name =
     (case enum_values [] decl of None \<Rightarrow> None | Some env \<Rightarrow> map_of env name)"

text \<open>\<^verbatim>\<open>VkColorSpaceKHR\<close>, from \<^verbatim>\<open>src/unnamed/part_001\<close>.\<close>

definition VkColorSpaceKHR :: enum_decl where
  "VkColorSpaceKHR =
    [(''VK_COLOR_SPACE_SRGB_NONLINEAR_KHR'', Lit 0),
     (''VK_COLOR_SPACE_DISPLAY_P3_NONLINEAR_EXT'', Lit 1000104001),
     (''VK_COLOR_SPACE_EXTENDED_SRGB_LINEAR_EXT'', Lit 1000104002),
     (''VK_COLOR_SPACE_DISPLAY_P3_LINEAR_EXT'', Lit 1000104003),
     (''VK_COLOR_SPACE_DCI_P3_NONLINEAR_EXT'', Lit 1000104004),
     (''VK_COLOR_SPACE_BT709_LINEAR_EXT'', Lit 1000104005),
     (''VK_COLOR_SPACE_BT709_NONLINEAR_EXT'', Lit 1000104006),
     (''VK_COLOR_SPACE_BT2020_LINEAR_EXT'', Lit 1000104007),
     (''VK_COLOR_SPACE_HDR10_ST2084_EXT'', Lit 1000104008),
     (''VK_COLOR_SPACE_DOLBYVISION_EXT'', Lit 1000104009),
     (''VK_COLOR_SPACE_HDR10_HLG_EXT'', Lit 1000104010),
     (''VK_COLOR_SPACE_ADOBERGB_LINEAR_EXT'', Lit 1000104011),
     (''VK_COLOR_SPACE_ADOBERGB_NONLINEAR_EXT'', Lit 1000104012),
     (''VK_COLOR_SPACE_PASS_THROUGH_EXT'', Lit 1000104013),
     (''VK_COLOR_SPACE_EXTENDED_SRGB_NONLINEAR_EXT'', Lit 1000104014),
     (''VK_COLOR_SPACE_DISPLAY_NATIVE_AMD'', Lit 1000213000),
     (''VK_COLORSPACE_SRGB_NONLINEAR_KHR'', Ref ''VK_COLOR_SPACE_SRGB_NONLINEAR_KHR''),
     (''VK_COLOR_SPACE_DCI_P3_LINEAR_EXT'', Ref ''VK_COLOR_SPACE_DISPLAY_P3_LINEAR_EXT'')]"

text \<open>\<^verbatim>\<open>VkAccelerationStructureCreateFlagBitsKHR\<close>, from \<^verbatim>\<open>src/unnamed/part_002\<close>.\<close>

definition VkAccelerationStructureCreateFlagBitsKHR :: enum_decl where
  "VkAccelerationStructureCreateFlagBitsKHR =
    [(''VK_ACCELERATION_STRUCTURE_CREATE_DEVICE_ADDRESS_CAPTURE_REPLAY_BIT_KHR'', Lit 0x00000001),
     (''VK_ACCELERATION_STRUCTURE_CREATE_DESCRIPTOR_BUFFER_CAPTURE_REPLAY_BIT_EXT'', Lit 0x00000008),
     (''VK_ACCELERATION_STRUCTURE_CREATE_MOTION_BIT_NV'', Lit 0x00000004)]"

text \<open>\<^verbatim>\<open>VkAttachmentStoreOp\<close>, from \<^verbatim>\<open>src/unnamed/part_003\<close>.\<close>

definition VkAttachmentStoreOp :: enum_decl where
  "VkAttachmentStoreOp =
    [(''VK_ATTACHMENT_STORE_OP_STORE'', Lit 0),
     (''VK_ATTACHMENT_STORE_OP_DONT_CARE'', Lit 1),
     (''VK_ATTACHMENT_STORE_OP_NONE'', Lit 1000301000),
     (''VK_ATTACHMENT_STORE_OP_NONE_KHR'', Ref ''VK_ATTACHMENT_STORE_OP_NONE''),
     (''VK_ATTACHMENT_STORE_OP_NONE_QCOM'', Ref ''VK_ATTACHMENT_STORE_OP_NONE''),
     (''VK_ATTACHMENT_STORE_OP_NONE_EXT'', Ref ''VK_ATTACHMENT_STORE_OP_NONE'')]"

text \<open>\<^verbatim>\<open>VkImageViewCreateFlagBits\<close>, from \<^verbatim>\<open>src/unnamed/part_004\<close>.\<close>

definition VkImageViewCreateFlagBits :: enum_decl where
  "VkImageViewCreateFlagBits =
    [(''VK_IMAGE_VIEW_CREATE_FRAGMENT_DENSITY_MAP_DYNAMIC_BIT_EXT'', Lit 0x00000001),
     (''VK_IMAGE_VIEW_CREATE_DESCRIPTOR_BUFFER_CAPTURE_REPLAY_BIT_EXT'', Lit 0x00000004),
     (''VK_IMAGE_VIEW_CREATE_FRAGMENT_DENSITY_MAP_DEFERRED_BIT_EXT'', Lit 0x00000002)]"

text \<open>\<^verbatim>\<open>VkPresentModeKHR\<close>, from \<^verbatim>\<open>src/unnamed/part_004\<close>.\<close>

definition VkPresentModeKHR :: enum_decl where
  "VkPresentModeKHR =
    [(''VK_PRESENT_MODE_IMMEDIATE_KHR'', Lit 0),
     (''VK_PRESENT_MODE_MAILBOX_KHR'', Lit 1),
     (''VK_PRESENT_MODE_FIFO_KHR'', Lit 2),
     (''VK_PRESENT_MODE_FIFO_RELAXED_KHR'', Lit 3),
     (''VK_PRESENT_MODE_SHARED_DEMAND_REFRESH_KHR'', Lit 1000111000),
     (''VK_PRESENT_MODE_SHARED_CONTINUOUS_REFRESH_KHR'', Lit 1000111001),
     (''VK_PRESENT_MODE_FIFO_LATEST_READY_EXT'', Lit 1000361000)]"

text \<open>\<^verbatim>\<open>VkAttachmentLoadOp\<close>, from \<^verbatim>\<open>src/unnamed/part_005\<close>.\<close>

definition VkAttachmentLoadOp :: enum_decl where
  "VkAttachmentLoadOp =
    [(''VK_ATTACHMENT_LOAD_OP_LOAD'', Lit 0),
     (''VK_ATTACHMENT_LOAD_OP_CLEAR'', Lit 1),
     (''VK_ATTACHMENT_LOAD_OP_DONT_CARE'', Lit 2),
     (''VK_ATTACHMENT_LOAD_OP_NONE'', Lit 1000400000),
     (''VK_ATTACHMENT_LOAD_OP_NONE_EXT'', Ref ''VK_ATTACHMENT_LOAD_OP_NONE''),
     (''VK_ATTACHMENT_LOAD_OP_NONE_KHR'', Ref ''VK_ATTACHMENT_LOAD_OP_NONE'')]"

text \<open>\<^verbatim>\<open>VkImageAspectFlagBits\<close>, from \<^verbatim>\<open>src/build/headers/image_aspects.c\<close>.\<close>

definition VkImageAspectFlagBits :: enum_decl where
  "VkImageAspectFlagBits =
    [(''VK_IMAGE_ASPECT_COLOR_BIT'', Lit 0x00000001),
     (''VK_IMAGE_ASPECT_DEPTH_BIT'', Lit 0x00000002),
     (''VK_IMAGE_ASPECT_STENCIL_BIT'', Lit 0x00000004),
     (''VK_IMAGE_ASPECT_METADATA_BIT'', Lit 0x00000008),
     (''VK_IMAGE_ASPECT_PLANE_0_BIT'', Lit 0x00000010),
     (''VK_IMAGE_ASPECT_PLANE_1_BIT'', Lit 0x00000020),
     (''VK_IMAGE_ASPECT_PLANE_2_BIT'', Lit 0x00000040),
     (''VK_IMAGE_ASPECT_NONE'', Lit 0),
     (''VK_IMAGE_ASPECT_MEMORY_PLANE_0_BIT_EXT'', Lit 0x00000080),
     (''VK_IMAGE_ASPECT_MEMORY_PLANE_1_BIT_EXT'', Lit 0x00000100),
     (''VK_IMAGE_ASPECT_MEMORY_PLANE_2_BIT_EXT'', Lit 0x00000200),
     (''VK_IMAGE_ASPECT_MEMORY_PLANE_3_BIT_EXT'', Lit 0x00000400),
     (''VK_IMAGE_ASPECT_PLANE_0_BIT_KHR'', Ref ''VK_IMAGE_ASPECT_PLANE_0_BIT''),
     (''VK_IMAGE_ASPECT_PLANE_1_BIT_KHR'', Ref ''VK_IMAGE_ASPECT_PLANE_1_BIT''),
     (''VK_IMAGE_ASPECT_PLANE_2_BIT_KHR'', Ref ''VK_IMAGE_ASPECT_PLANE_2_BIT''),
     (''VK_IMAGE_ASPECT_NONE_KHR'', Ref ''VK_IMAGE_ASPECT_NONE'')]"

text \<open>\<^verbatim>\<open>VkSwapchainCreateFlagBitsKHR\<close>, from \<^verbatim>\<open>src/build/headers/swapchain_flags.c\<close>.\<close>

definition VkSwapchainCreateFlagBitsKHR :: enum_decl where
  "VkSwapchainCreateFlagBitsKHR =
    [(''VK_SWAPCHAIN_CREATE_SPLIT_INSTANCE_BIND_REGIONS_BIT_KHR'', Lit 0x00000001),
     (''VK_SWAPCHAIN_CREATE_PROTECTED_BIT_KHR'', Lit 0x00000002),
     (''VK_SWAPCHAIN_CREATE_MUTABLE_FORMAT_BIT_KHR'', Lit 0x00000004),
     (''VK_SWAPCHAIN_CREATE_DEFERRED_MEMORY_ALLOCATION_BIT_EXT'', Lit 0x00000008),
     (''VK_SWAPCHAIN_CREATE_PRESENT_ID_2_BIT_KHR'', Lit 0x00000040),
     (''VK_SWAPCHAIN_CREATE_PRESENT_WAIT_2_BIT_KHR'', Lit 0x00000080)]"

definition enum_tables :: "enum_decl list" where
  "enum_tables =
    [VkColorSpaceKHR, VkAccelerationStructureCreateFlagBitsKHR, VkAttachmentStoreOp,
     VkImageViewCreateFlagBits, VkPresentModeKHR, VkAttachmentLoadOp, VkImageAspectFlagBits,
     VkSwapchainCreateFlagBitsKHR]"

text \<open>The four enumerations of flag bits.\<close>

definition flag_bit_enums :: "enum_decl list" where
  "flag_bit_enums =
    [VkSwapchainCreateFlagBitsKHR, VkImageAspectFlagBits, VkImageViewCreateFlagBits,
     VkAccelerationStructureCreateFlagBitsKHR]"

text \<open>
  The flags of an enumeration of flag bits: the values of its enumerators that are given
  by a literal (not an alias) other than zero, in declaration order.
\<close>

fun flag_bits :: "enum_decl \<Rightarrow> int list" where
  "flag_bits [] = []"
| "flag_bits ((name, Lit v) # es) = (if v \<noteq> 0 then v # flag_bits es else flag_bits es)"
| "flag_bits ((name, Ref c) # es) = flag_bits es"

text \<open>The bitwise or of a list of flags, as C's \<open>a | b | ...\<close> builds a mask.\<close>

fun or_flags :: "int list \<Rightarrow> int" where
  "or_flags [] = 0"
| "or_flags (f # fs) = f OR or_flags fs"

section \<open>Lemmas about the kernel\<close>

subsection \<open>One invocation and a run of invocations\<close>

lemma main_Some: "unat i < length (data buf) \<Longrightarrow>
  main pc (global_id i) buf = Some (buf\<lparr>data := (data buf)[unat i := i * int_to_uint (multiple pc)]\<rparr>)"
  by (simp add: main_def global_id_def)

lemma main_None: "main pc g buf = None \<longleftrightarrow> length (data buf) \<le> unat (vec_x g)"
  by (auto simp add: main_def Let_def)

lemma scaled_empty: "scaled pc {} buf = buf"
  by (simp add: scaled_def map_nth)

lemma length_scaled: "length (data (scaled pc S buf)) = length (data buf)"
  by (simp add: scaled_def)

lemma nth_scaled: "j < length (data buf) \<Longrightarrow> data (scaled pc S buf) ! j =
   (if j \<in> unat ` S then word_of_nat j * int_to_uint (multiple pc) else data buf ! j)"
  by (simp add: scaled_def)

lemma scaled_step:
  "unat i < length (data buf) \<Longrightarrow>
   scaled pc S (buf\<lparr>data := (data buf)[unat i := i * int_to_uint (multiple pc)]\<rparr>)
     = scaled pc (insert i S) buf"
  by (simp add: scaled_def)

lemma scaled_twice: "scaled pc S (scaled pc S buf) = scaled pc S buf"
  by (simp add: scaled_def)

lemma run_invocations_scaled:
  "\<forall>i\<in>set ids. unat i < length (data buf) \<Longrightarrow>
   run_invocations pc ids buf = Some (scaled pc (set ids) buf)"
proof (induction ids arbitrary: buf)
  case Nil
  show ?case by (simp add: scaled_empty)
next
  case (Cons i ids)
  let ?b = "buf\<lparr>data := (data buf)[unat i := i * int_to_uint (multiple pc)]\<rparr>"
  have i: "unat i < length (data buf)" using Cons.prems by simp
  have "\<forall>k\<in>set ids. unat k < length (data ?b)" using Cons.prems by simp
  then have "run_invocations pc ids ?b = Some (scaled pc (set ids) ?b)" by (rule Cons.IH)
  then show ?case using i by (simp add: main_Some scaled_step)
qed

lemma unat_invocation_id: "i < unat (N :: glsl_uint) \<Longrightarrow> unat (word_of_nat i :: glsl_uint) = i"
proof -
  assume "i < unat N"
  moreover have "unat N < 2 ^ LENGTH(32)" by (rule unsigned_less)
  ultimately have "i < 2 ^ LENGTH(32)" by (rule less_trans)
  then show ?thesis by (simp add: unat_of_nat)
qed

lemma unat_set_invocation_ids: "unat ` set (invocation_ids N) = {0..<unat N}"
proof -
  have "unat ` set (invocation_ids N) = (\<lambda>i. unat (word_of_nat i :: glsl_uint)) ` {0..<unat N}"
    by (simp add: invocation_ids_def image_image)
  also have "\<dots> = (\<lambda>i. i) ` {0..<unat N}"
    by (rule image_cong) (simp_all add: unat_invocation_id)
  finally show ?thesis by simp
qed

lemma invocation_ids_in_bounds:
  "unat N \<le> length (data buf) \<Longrightarrow> \<forall>i\<in>set (invocation_ids N). unat i < length (data buf)"
proof
  fix i assume a: "unat N \<le> length (data buf)" "i \<in> set (invocation_ids N)"
  from a(2) have "unat i \<in> unat ` set (invocation_ids N)" by (rule imageI)
  then have "unat i < unat N" by (simp add: unat_set_invocation_ids)
  then show "unat i < length (data buf)" using a(1) by simp
qed

lemma dispatch_scaled:
  "unat N \<le> length (data buf) \<Longrightarrow>
   dispatch pc N buf = Some (scaled pc (set (invocation_ids N)) buf)"
  unfolding dispatch_def by (rule run_invocations_scaled) (rule invocation_ids_in_bounds)

lemma data_scaled_invocation_ids:
  assumes "unat N \<le> length (data buf)"
  shows "data (scaled pc (set (invocation_ids N)) buf) =
         map (\<lambda>i. word_of_nat i * int_to_uint (multiple pc)) [0..<unat N] @ drop (unat N) (data buf)"
proof (rule nth_equalityI)
  show "length (data (scaled pc (set (invocation_ids N)) buf)) =
        length (map (\<lambda>i. word_of_nat i * int_to_uint (multiple pc)) [0..<unat N] @ drop (unat N) (data buf))"
    using assms by (simp add: length_scaled)
next
  fix j assume "j < length (data (scaled pc (set (invocation_ids N)) buf))"
  then have j: "j < length (data buf)" by (simp add: length_scaled)
  show "data (scaled pc (set (invocation_ids N)) buf) ! j =
        (map (\<lambda>i. word_of_nat i * int_to_uint (multiple pc)) [0..<unat N] @ drop (unat N) (data buf)) ! j"
    using j assms by (simp add: nth_scaled unat_set_invocation_ids nth_append)
qed

lemma uint_scaled_value:
  "uint (word_of_nat i * int_to_uint m :: glsl_uint) = (int i * sint m) mod 2 ^ 32"
proof -
  have "word_of_nat i * int_to_uint m = (word_of_int (int i * sint m) :: glsl_uint)"
    by (simp add: int_to_uint_def)
  then show ?thesis by (simp only: uint_word_of_int) simp
qed

lemma int_to_uint_id: "int_to_uint m = m"
  by (simp add: int_to_uint_def)

lemma dispatch_closed_form:
  assumes "unat N \<le> length (data buf)"
  shows "\<exists>buf'. dispatch pc N buf = Some buf' \<and>
           data buf' = map (\<lambda>i. word_of_nat i * int_to_uint (multiple pc)) [0..<unat N]
                        @ drop (unat N) (data buf)"
  using assms by (simp add: dispatch_scaled data_scaled_invocation_ids)

subsection \<open>The logged run\<close>

lemma main_logged_main:
  "main_logged pc g (buf, log) =
     map_option (\<lambda>b. (b, log @ [(vec_x g, unat (vec_x g))])) (main pc g buf)"
  by (simp add: main_logged_def main_def Let_def)

lemma run_invocations_logged_run:
  "run_invocations_logged pc ids (buf, log) =
     map_option (\<lambda>b. (b, log @ map (\<lambda>i. (i, unat i)) ids)) (run_invocations pc ids buf)"
proof (induction ids arbitrary: buf log)
  case Nil
  show ?case by simp
next
  case (Cons i ids)
  show ?case
    by (cases "main pc (global_id i) buf")
       (simp_all add: main_logged_main Cons.IH global_id_def)
qed

lemma dispatch_logged_dispatch:
  "dispatch_logged pc N buf =
     map_option (\<lambda>b. (b, map (\<lambda>i. (i, unat i)) (invocation_ids N))) (dispatch pc N buf)"
  by (simp add: dispatch_logged_def dispatch_def run_invocations_logged_run)

lemma filter_eq_upt: "filter (\<lambda>j. j = i) [0..<n] = (if i < n then [i] else [])"
  by (induction n) auto

lemma log_invocation_ids:
  "map (\<lambda>i. (i, unat i)) (invocation_ids N) = map (\<lambda>j. (word_of_nat j, j)) [0..<unat N]"
  by (simp add: invocation_ids_def unat_invocation_id)

lemma stores_to_slot:
  assumes "i < unat N"
  shows "filter (\<lambda>e. snd e = i) (map (\<lambda>i. (i, unat i)) (invocation_ids N)) = [(word_of_nat i, i)]"
proof -
  have "filter (\<lambda>e. snd e = i) (map (\<lambda>j. (word_of_nat j :: glsl_uint, j)) [0..<unat N])
        = map (\<lambda>j. (word_of_nat j, j)) (filter (\<lambda>j. j = i) [0..<unat N])"
    by (simp add: filter_map comp_def)
  then show ?thesis using assms by (simp add: log_invocation_ids filter_eq_upt)
qed

section \<open>Lemmas about the enumeration tables\<close>

subsection \<open>The values of a declaration that compiles\<close>

lemma map_of_snoc_fresh:
  "map_of env name = None \<Longrightarrow> map_of (env @ [(name, v)]) name = Some v"
  by (simp add: map_add_def)

lemma map_of_snoc_old:
  "map_of env n = Some w \<Longrightarrow> map_of (env @ [(name, v)]) n = Some w"
  by (simp add: map_add_def)

lemma enum_values_keeps:
  "enum_values env es = Some env' \<Longrightarrow> map_of env n = Some w \<Longrightarrow> map_of env' n = Some w"
proof (induction env es arbitrary: env' rule: enum_values.induct)
  case (1 env)
  then show ?case by simp
next
  case (2 env name v es)
  from "2.prems"(1) have ok: "\<not> (map_of env name \<noteq> None \<or> v < - (2 ^ 31) \<or> 2 ^ 31 \<le> v)"
    and run: "enum_values (env @ [(name, v)]) es = Some env'"
    by (simp_all split: if_splits)
  from "2.prems"(2) have "map_of (env @ [(name, v)]) n = Some w" by (rule map_of_snoc_old)
  with "2.IH" [OF ok run] show ?case .
next
  case (3 env name c es)
  from "3.prems"(1) have ok: "\<not> map_of env name \<noteq> None"
    by (simp split: if_splits)
  from "3.prems"(1) ok obtain v where c: "map_of env c = Some v"
    and run: "enum_values (env @ [(name, v)]) es = Some env'"
    by (auto split: option.splits)
  from "3.prems"(2) have "map_of (env @ [(name, v)]) n = Some w" by (rule map_of_snoc_old)
  with "3.IH" [OF ok c run] show ?case .
qed

lemma enum_values_entries:
  "enum_values env es = Some env' \<Longrightarrow> (name, init) \<in> set es \<Longrightarrow>
   (case init of
      Lit v \<Rightarrow> map_of env' name = Some v
    | Ref c \<Rightarrow> map_of env' name \<noteq> None \<and> map_of env' name = map_of env' c)"
proof (induction env es arbitrary: env' rule: enum_values.induct)
  case (1 env)
  then show ?case by simp
next
  case (2 env n v es)
  from "2.prems"(1) have ok: "\<not> (map_of env n \<noteq> None \<or> v < - (2 ^ 31) \<or> 2 ^ 31 \<le> v)"
    and run: "enum_values (env @ [(n, v)]) es = Some env'"
    by (simp_all split: if_splits)
  show ?case
  proof (cases "(name, init) = (n, Lit v)")
    case True
    from ok have "map_of env n = None" by simp
    then have "map_of (env @ [(n, v)]) n = Some v" by (rule map_of_snoc_fresh)
    with run have "map_of env' n = Some v" by (rule enum_values_keeps)
    with True show ?thesis by simp
  next
    case False
    with "2.prems"(2) have "(name, init) \<in> set es" by auto
    with "2.IH" [OF ok run] show ?thesis .
  qed
next
  case (3 env n c es)
  from "3.prems"(1) have ok: "\<not> map_of env n \<noteq> None"
    by (simp split: if_splits)
  from "3.prems"(1) ok obtain v where c: "map_of env c = Some v"
    and run: "enum_values (env @ [(n, v)]) es = Some env'"
    by (auto split: option.splits)
  show ?case
  proof (cases "(name, init) = (n, Ref c)")
    case True
    from ok have "map_of env n = None" by simp
    then have "map_of (env @ [(n, v)]) n = Some v" by (rule map_of_snoc_fresh)
    with run have 1: "map_of env' n = Some v" by (rule enum_values_keeps)
    from c have "map_of (env @ [(n, v)]) c = Some v" by (rule map_of_snoc_old)
    with run have 2: "map_of env' c = Some v" by (rule enum_values_keeps)
    from True 1 2 show ?thesis by simp
  next
    case False
    with "3.prems"(2) have "(name, init) \<in> set es" by auto
    with "3.IH" [OF ok c run] show ?thesis .
  qed
qed

lemma enum_value_entries:
  assumes "enum_values [] T \<noteq> None" and "(name, init) \<in> set T"
  shows "case init of
           Lit v \<Rightarrow> enum_value T name = Some v
         | Ref c \<Rightarrow> enum_value T name \<noteq> None \<and> enum_value T name = enum_value T c"
proof -
  from assms(1) obtain env where e: "enum_values [] T = Some env" by blast
  note en = enum_values_entries [OF e assms(2)]
  show ?thesis
  proof (cases init)
    case (Lit v)
    with en show ?thesis by (simp add: enum_value_def e)
  next
    case (Ref c)
    note 12 = en [unfolded Ref enum_init.case]
    note 1 = 12 [THEN conjunct1] and 2 = 12 [THEN conjunct2]
    have 3: "enum_value T name = map_of env name" and 4: "enum_value T c = map_of env c"
      by (simp_all add: enum_value_def e)
    from 1 2 have r: "enum_value T name \<noteq> None \<and> enum_value T name = enum_value T c"
      unfolding 3 4 by (rule conjI)
    show ?thesis unfolding Ref enum_init.case by (rule r)
  qed
qed

lemma compiles_VkColorSpaceKHR: "enum_values [] VkColorSpaceKHR \<noteq> None"
  by (simp add: VkColorSpaceKHR_def)

lemma compiles_VkAccelerationStructureCreateFlagBitsKHR: "enum_values [] VkAccelerationStructureCreateFlagBitsKHR \<noteq> None"
  by (simp add: VkAccelerationStructureCreateFlagBitsKHR_def)

lemma compiles_VkAttachmentStoreOp: "enum_values [] VkAttachmentStoreOp \<noteq> None"
  by (simp add: VkAttachmentStoreOp_def)

lemma compiles_VkImageViewCreateFlagBits: "enum_values [] VkImageViewCreateFlagBits \<noteq> None"
  by (simp add: VkImageViewCreateFlagBits_def)

lemma compiles_VkPresentModeKHR: "enum_values [] VkPresentModeKHR \<noteq> None"
  by (simp add: VkPresentModeKHR_def)

lemma compiles_VkAttachmentLoadOp: "enum_values [] VkAttachmentLoadOp \<noteq> None"
  by (simp add: VkAttachmentLoadOp_def)

lemma compiles_VkImageAspectFlagBits: "enum_values [] VkImageAspectFlagBits \<noteq> None"
  by (simp add: VkImageAspectFlagBits_def)

lemma compiles_VkSwapchainCreateFlagBitsKHR: "enum_values [] VkSwapchainCreateFlagBitsKHR \<noteq> None"
  by (simp add: VkSwapchainCreateFlagBitsKHR_def)

lemma enum_tables_compile: "T \<in> set enum_tables \<Longrightarrow> enum_values [] T \<noteq> None"
  unfolding enum_tables_def
  using compiles_VkColorSpaceKHR compiles_VkAccelerationStructureCreateFlagBitsKHR
    compiles_VkAttachmentStoreOp compiles_VkImageViewCreateFlagBits compiles_VkPresentModeKHR
    compiles_VkAttachmentLoadOp compiles_VkImageAspectFlagBits
    compiles_VkSwapchainCreateFlagBitsKHR
  by auto

lemma enum_value_Lit:
  "enum_values [] T \<noteq> None \<Longrightarrow> (name, Lit v) \<in> set T \<Longrightarrow> enum_value T name = Some v"
  using enum_value_entries [of T name "Lit v"] by simp

lemma enum_value_Ref:
  "enum_values [] T \<noteq> None \<Longrightarrow> (name, Ref c) \<in> set T \<Longrightarrow> (c, Lit v) \<in> set T \<Longrightarrow>
   enum_value T name = Some v \<and> enum_value T name = enum_value T c"
  using enum_value_entries [of T name "Ref c"] enum_value_Lit [of T c v] by simp

subsection \<open>Flags that are powers of two\<close>

lemma pow2_and_pow2: "j \<noteq> k \<Longrightarrow> (2 :: int) ^ j AND 2 ^ k = 0"
  by (rule bit_eqI) (auto simp: bit_and_iff bit_exp_iff)

lemma pow2_flags_disjoint:
  assumes "\<exists>j. f = 2 ^ j" and "\<exists>k. g = 2 ^ k" and "f \<noteq> g"
  shows "f AND g = (0 :: int)"
proof -
  from assms(1) obtain j where j: "f = 2 ^ j" by blast
  from assms(2) obtain k where k: "g = 2 ^ k" by blast
  from assms(3) have "j \<noteq> k" unfolding j k by auto
  then show ?thesis unfolding j k by (rule pow2_and_pow2)
qed

lemma pow2_and_iff:
  assumes "\<exists>j. f = 2 ^ j" and "\<exists>k. g = 2 ^ k"
  shows "f AND g \<noteq> (0 :: int) \<longleftrightarrow> f = g"
proof
  assume "f AND g \<noteq> 0"
  then show "f = g" using pow2_flags_disjoint [OF assms] by blast
next
  assume "f = g"
  moreover from assms(2) obtain k where "g = 2 ^ k" by blast
  ultimately show "f AND g \<noteq> 0" by simp
qed

lemma or_flags_and_iff:
  assumes F: "\<forall>g\<in>F. \<exists>k. g = 2 ^ k" and f: "f \<in> F" and fs: "set fs \<subseteq> F"
  shows "or_flags fs AND f \<noteq> 0 \<longleftrightarrow> f \<in> set fs"
  using fs
proof (induction fs)
  case Nil
  show ?case by simp
next
  case (Cons g fs)
  from Cons.prems have g: "g \<in> F" and rest: "set fs \<subseteq> F" by simp_all
  have "(g OR or_flags fs) AND f = (g AND f) OR (or_flags fs AND f)"
    by (rule bit.conj_disj_distrib2)
  then have "or_flags (g # fs) AND f \<noteq> 0 \<longleftrightarrow> g AND f \<noteq> 0 \<or> or_flags fs AND f \<noteq> 0"
    by (simp add: or_eq_0_iff)
  also have "g AND f \<noteq> 0 \<longleftrightarrow> g = f"
    using F g f by (intro pow2_and_iff) blast+
  also have "or_flags fs AND f \<noteq> 0 \<longleftrightarrow> f \<in> set fs" using rest by (rule Cons.IH)
  finally show ?case by auto
qed

lemma or_flags_decompose:
  assumes F: "\<forall>g\<in>F. \<exists>k. g = 2 ^ k" and fs: "set fs \<subseteq> F" and gs: "set gs \<subseteq> F"
    and eq: "or_flags fs = or_flags gs"
  shows "set fs = set gs"
proof (rule set_eqI)
  fix f
  show "f \<in> set fs \<longleftrightarrow> f \<in> set gs"
  proof (cases "f \<in> F")
    case True
    have "f \<in> set fs \<longleftrightarrow> or_flags fs AND f \<noteq> 0" using or_flags_and_iff [OF F True fs] by simp
    also have "\<dots> \<longleftrightarrow> or_flags gs AND f \<noteq> 0" by (simp only: eq)
    also have "\<dots> \<longleftrightarrow> f \<in> set gs" by (rule or_flags_and_iff [OF F True gs])
    finally show ?thesis .
  next
    case False
    with fs gs show ?thesis by blast
  qed
qed

lemma flag_bits_VkSwapchainCreateFlagBitsKHR:
  "flag_bits VkSwapchainCreateFlagBitsKHR = [2 ^ 0, 2 ^ 1, 2 ^ 2, 2 ^ 3, 2 ^ 6, 2 ^ 7]"
  by (simp add: VkSwapchainCreateFlagBitsKHR_def)

lemma flag_bits_VkImageAspectFlagBits:
  "flag_bits VkImageAspectFlagBits =
     [2 ^ 0, 2 ^ 1, 2 ^ 2, 2 ^ 3, 2 ^ 4, 2 ^ 5, 2 ^ 6, 2 ^ 7, 2 ^ 8, 2 ^ 9, 2 ^ 10]"
  by (simp add: VkImageAspectFlagBits_def)

lemma flag_bits_VkImageViewCreateFlagBits:
  "flag_bits VkImageViewCreateFlagBits = [2 ^ 0, 2 ^ 2, 2 ^ 1]"
  by (simp add: VkImageViewCreateFlagBits_def)

lemma flag_bits_VkAccelerationStructureCreateFlagBitsKHR:
  "flag_bits VkAccelerationStructureCreateFlagBitsKHR = [2 ^ 0, 2 ^ 3, 2 ^ 2]"
  by (simp add: VkAccelerationStructureCreateFlagBitsKHR_def)

lemmas flag_bits_tables =
  flag_bits_VkSwapchainCreateFlagBitsKHR flag_bits_VkImageAspectFlagBits
  flag_bits_VkImageViewCreateFlagBits flag_bits_VkAccelerationStructureCreateFlagBitsKHR

lemma flag_bits_pow2:
  assumes "T \<in> set flag_bit_enums"
  shows "\<forall>f\<in>set (flag_bits T). \<exists>k. f = 2 ^ k"
proof -
  from assms consider "T = VkSwapchainCreateFlagBitsKHR" | "T = VkImageAspectFlagBits"
    | "T = VkImageViewCreateFlagBits" | "T = VkAccelerationStructureCreateFlagBitsKHR"
    unfolding flag_bit_enums_def by auto
  then show ?thesis
  proof cases
    case 1 show ?thesis unfolding 1 flag_bits_VkSwapchainCreateFlagBitsKHR
      by (simp only: list.set ball_simps) blast
  next
    case 2 show ?thesis unfolding 2 flag_bits_VkImageAspectFlagBits
      by (simp only: list.set ball_simps) blast
  next
    case 3 show ?thesis unfolding 3 flag_bits_VkImageViewCreateFlagBits
      by (simp only: list.set ball_simps) blast
  next
    case 4 show ?thesis unfolding 4 flag_bits_VkAccelerationStructureCreateFlagBitsKHR
      by (simp only: list.set ball_simps) blast
  qed
qed

lemma flag_bits_distinct:
  assumes "T \<in> set flag_bit_enums"
  shows "distinct (flag_bits T)"
proof -
  from assms consider "T = VkSwapchainCreateFlagBitsKHR" | "T = VkImageAspectFlagBits"
    | "T = VkImageViewCreateFlagBits" | "T = VkAccelerationStructureCreateFlagBitsKHR"
    unfolding flag_bit_enums_def by auto
  then show ?thesis
    by cases (simp_all add: flag_bits_tables)
qed

section \<open>Properties of the kernel\<close>

text \<open>
  Claim C1. For every dispatch size \<open>N\<close>, every multiplier and every buffer with at
  least \<open>N\<close> slots, one dispatch succeeds and leaves in each slot \<open>i < N\<close> the product
  of \<open>i\<close> and the multiplier as a 32-bit unsigned value: the \<open>uint\<close> product of the
  kernel, which is the integer product of \<open>i\<close> and the signed multiplier modulo \<open>2 ^ 32\<close>.
\<close>

theorem dispatch_slots:
  assumes "unat N \<le> length (data buf)"
  shows "\<exists>buf'. dispatch pc N buf = Some buf' \<and>
           (\<forall>i<unat N. data buf' ! i = word_of_nat i * int_to_uint (multiple pc) \<and>
                        uint (data buf' ! i) = (int i * sint (multiple pc)) mod 2 ^ 32)"
proof -
  obtain buf' where d: "dispatch pc N buf = Some buf'"
    and eq: "data buf' = map (\<lambda>i. word_of_nat i * int_to_uint (multiple pc)) [0..<unat N]
                          @ drop (unat N) (data buf)"
    using dispatch_closed_form [OF assms] by blast
  have "data buf' ! i = word_of_nat i * int_to_uint (multiple pc)" if "i < unat N" for i
    using that by (simp add: eq nth_append)
  then show ?thesis using d by (simp add: uint_scaled_value)
qed

theorem dispatch_slots_witness:
  "unat (4 :: glsl_uint) \<le> length (data \<lparr>data = [7, 7, 7, 7, 9]\<rparr>) \<and>
   (\<exists>buf'. dispatch \<lparr>multiple = 2\<rparr> 4 \<lparr>data = [7, 7, 7, 7, 9]\<rparr> = Some buf' \<and>
      (\<forall>i<unat (4 :: glsl_uint).
          data buf' ! i = word_of_nat i * int_to_uint (multiple \<lparr>multiple = 2\<rparr>) \<and>
          uint (data buf' ! i) = (int i * sint (multiple \<lparr>multiple = 2\<rparr>)) mod 2 ^ 32))"
proof
  show h: "unat (4 :: glsl_uint) \<le> length (data \<lparr>data = [7, 7, 7, 7, 9]\<rparr>)" by simp
  show "\<exists>buf'. dispatch \<lparr>multiple = 2\<rparr> 4 \<lparr>data = [7, 7, 7, 7, 9]\<rparr> = Some buf' \<and>
      (\<forall>i<unat (4 :: glsl_uint).
          data buf' ! i = word_of_nat i * int_to_uint (multiple \<lparr>multiple = 2\<rparr>) \<and>
          uint (data buf' ! i) = (int i * sint (multiple \<lparr>multiple = 2\<rparr>)) mod 2 ^ 32)"
    by (rule dispatch_slots [OF h])
qed

text \<open>
  Claim C2. After one dispatch of size \<open>N\<close> over a buffer with at least \<open>N\<close> slots, the
  buffer has its old length, the slots at indices \<open>N\<close> and above hold the values they held
  before, and the store log has exactly one entry for each slot \<open>i < N\<close>: the store of the
  invocation whose identifier is \<open>i\<close>. The log has \<open>N\<close> entries in all.
\<close>

theorem dispatch_frame_single_store:
  assumes "unat N \<le> length (data buf)"
  shows "\<exists>buf' log. dispatch_logged pc N buf = Some (buf', log) \<and>
           dispatch pc N buf = Some buf' \<and>
           length (data buf') = length (data buf) \<and>
           drop (unat N) (data buf') = drop (unat N) (data buf) \<and>
           length log = unat N \<and>
           (\<forall>i<unat N. filter (\<lambda>e. snd e = i) log = [(word_of_nat i, i)])"
proof -
  obtain buf' where d: "dispatch pc N buf = Some buf'"
    and eq: "data buf' = map (\<lambda>i. word_of_nat i * int_to_uint (multiple pc)) [0..<unat N]
                          @ drop (unat N) (data buf)"
    using dispatch_closed_form [OF assms] by blast
  let ?log = "map (\<lambda>i. (i, unat i)) (invocation_ids N)"
  have l: "dispatch_logged pc N buf = Some (buf', ?log)"
    by (simp add: dispatch_logged_dispatch d)
  have len: "length (data buf') = length (data buf)" using assms by (simp add: eq)
  have dr: "drop (unat N) (data buf') = drop (unat N) (data buf)" by (simp add: eq)
  have ll: "length ?log = unat N" by (simp add: invocation_ids_def)
  have st: "\<forall>i<unat N. filter (\<lambda>e. snd e = i) ?log = [(word_of_nat i, i)]"
    by (simp add: stores_to_slot)
  from l d len dr ll st show ?thesis by blast
qed

theorem dispatch_frame_single_store_witness:
  "unat (3 :: glsl_uint) \<le> length (data \<lparr>data = [7, 7, 7, 7, 9]\<rparr>) \<and>
   (\<exists>buf' log. dispatch_logged \<lparr>multiple = 5\<rparr> 3 \<lparr>data = [7, 7, 7, 7, 9]\<rparr> = Some (buf', log) \<and>
      dispatch \<lparr>multiple = 5\<rparr> 3 \<lparr>data = [7, 7, 7, 7, 9]\<rparr> = Some buf' \<and>
      length (data buf') = length (data \<lparr>data = [7, 7, 7, 7, 9]\<rparr>) \<and>
      drop (unat (3 :: glsl_uint)) (data buf') =
        drop (unat (3 :: glsl_uint)) (data \<lparr>data = [7, 7, 7, 7, 9]\<rparr>) \<and>
      length log = unat (3 :: glsl_uint) \<and>
      (\<forall>i<unat (3 :: glsl_uint). filter (\<lambda>e. snd e = i) log = [(word_of_nat i, i)]))"
proof
  show h: "unat (3 :: glsl_uint) \<le> length (data \<lparr>data = [7, 7, 7, 7, 9]\<rparr>)" by simp
  show "\<exists>buf' log. dispatch_logged \<lparr>multiple = 5\<rparr> 3 \<lparr>data = [7, 7, 7, 7, 9]\<rparr> = Some (buf', log) \<and>
      dispatch \<lparr>multiple = 5\<rparr> 3 \<lparr>data = [7, 7, 7, 7, 9]\<rparr> = Some buf' \<and>
      length (data buf') = length (data \<lparr>data = [7, 7, 7, 7, 9]\<rparr>) \<and>
      drop (unat (3 :: glsl_uint)) (data buf') =
        drop (unat (3 :: glsl_uint)) (data \<lparr>data = [7, 7, 7, 7, 9]\<rparr>) \<and>
      length log = unat (3 :: glsl_uint) \<and>
      (\<forall>i<unat (3 :: glsl_uint). filter (\<lambda>e. snd e = i) log = [(word_of_nat i, i)])"
    by (rule dispatch_frame_single_store [OF h])
qed

text \<open>
  Claim C3. The spec's concrete dispatches, over any buffer that is long enough: with
  \<open>N = 1\<close> and multiplier 1 slot 0 is 0; with \<open>N = 4\<close> and multiplier 2 the first four
  slots are 0, 2, 4, 6; with \<open>N = 8\<close> and multiplier 0 the first eight slots are all 0.
\<close>

theorem dispatch_scenarios:
  assumes "1 \<le> length (data b1)" and "4 \<le> length (data b4)" and "8 \<le> length (data b8)"
  shows "(\<exists>b'. dispatch \<lparr>multiple = 1\<rparr> 1 b1 = Some b' \<and> data b' ! 0 = 0) \<and>
         (\<exists>b'. dispatch \<lparr>multiple = 2\<rparr> 4 b4 = Some b' \<and> take 4 (data b') = [0, 2, 4, 6]) \<and>
         (\<exists>b'. dispatch \<lparr>multiple = 0\<rparr> 8 b8 = Some b' \<and>
               take 8 (data b') = [0, 0, 0, 0, 0, 0, 0, 0])"
proof (intro conjI)
  have "unat (1 :: glsl_uint) \<le> length (data b1)" using assms(1) by simp
  from dispatch_closed_form [OF this, of "\<lparr>multiple = 1\<rparr>"]
  show "\<exists>b'. dispatch \<lparr>multiple = 1\<rparr> 1 b1 = Some b' \<and> data b' ! 0 = 0"
    by (auto simp: int_to_uint_id)
next
  have "unat (4 :: glsl_uint) \<le> length (data b4)" using assms(2) by simp
  from dispatch_closed_form [OF this, of "\<lparr>multiple = 2\<rparr>"]
  show "\<exists>b'. dispatch \<lparr>multiple = 2\<rparr> 4 b4 = Some b' \<and> take 4 (data b') = [0, 2, 4, 6]"
    by (auto simp: int_to_uint_id upt_rec)
next
  have "unat (8 :: glsl_uint) \<le> length (data b8)" using assms(3) by simp
  from dispatch_closed_form [OF this, of "\<lparr>multiple = 0\<rparr>"]
  show "\<exists>b'. dispatch \<lparr>multiple = 0\<rparr> 8 b8 = Some b' \<and>
               take 8 (data b') = [0, 0, 0, 0, 0, 0, 0, 0]"
    by (auto simp: int_to_uint_id upt_rec)
qed

theorem dispatch_scenarios_witness:
  "(1 \<le> length (data \<lparr>data = [5]\<rparr>) \<and> 4 \<le> length (data \<lparr>data = [5, 5, 5, 5]\<rparr>) \<and>
    8 \<le> length (data \<lparr>data = [5, 5, 5, 5, 5, 5, 5, 5, 5]\<rparr>)) \<and>
   (\<exists>b'. dispatch \<lparr>multiple = 1\<rparr> 1 \<lparr>data = [5]\<rparr> = Some b' \<and> data b' ! 0 = 0) \<and>
   (\<exists>b'. dispatch \<lparr>multiple = 2\<rparr> 4 \<lparr>data = [5, 5, 5, 5]\<rparr> = Some b' \<and>
         take 4 (data b') = [0, 2, 4, 6]) \<and>
   (\<exists>b'. dispatch \<lparr>multiple = 0\<rparr> 8 \<lparr>data = [5, 5, 5, 5, 5, 5, 5, 5, 5]\<rparr> = Some b' \<and>
         take 8 (data b') = [0, 0, 0, 0, 0, 0, 0, 0])"
proof
  have h1: "1 \<le> length (data \<lparr>data = [5]\<rparr>)" by simp
  have h4: "4 \<le> length (data \<lparr>data = [5, 5, 5, 5]\<rparr>)" by simp
  have h8: "8 \<le> length (data \<lparr>data = [5, 5, 5, 5, 5, 5, 5, 5, 5]\<rparr>)" by simp
  from h1 h4 h8
  show "1 \<le> length (data \<lparr>data = [5]\<rparr>) \<and> 4 \<le> length (data \<lparr>data = [5, 5, 5, 5]\<rparr>) \<and>
    8 \<le> length (data \<lparr>data = [5, 5, 5, 5, 5, 5, 5, 5, 5]\<rparr>)" by (intro conjI)
  show "(\<exists>b'. dispatch \<lparr>multiple = 1\<rparr> 1 \<lparr>data = [5]\<rparr> = Some b' \<and> data b' ! 0 = 0) \<and>
   (\<exists>b'. dispatch \<lparr>multiple = 2\<rparr> 4 \<lparr>data = [5, 5, 5, 5]\<rparr> = Some b' \<and>
         take 4 (data b') = [0, 2, 4, 6]) \<and>
   (\<exists>b'. dispatch \<lparr>multiple = 0\<rparr> 8 \<lparr>data = [5, 5, 5, 5, 5, 5, 5, 5, 5]\<rparr> = Some b' \<and>
         take 8 (data b') = [0, 0, 0, 0, 0, 0, 0, 0])"
    by (rule dispatch_scenarios [OF h1 h4 h8])
qed

text \<open>
  Claim C4. With \<open>N = 3\<close> and the multiplier \<open>-1\<close>, the first three slots are 0,
  4294967295 and 4294967294: the integers 0, \<open>-1\<close> and \<open>-2\<close> modulo \<open>2 ^ 32\<close>.
\<close>

theorem dispatch_negative_multiplier:
  assumes "3 \<le> length (data buf)"
  shows "sint (multiple \<lparr>multiple = - 1\<rparr>) = - 1 \<and>
         (\<exists>b'. dispatch \<lparr>multiple = - 1\<rparr> 3 buf = Some b' \<and>
               take 3 (data b') = [0, 4294967295, 4294967294] \<and>
               map uint (take 3 (data b')) = [0 mod 2 ^ 32, (- 1) mod 2 ^ 32, (- 2) mod 2 ^ 32])"
proof
  show "sint (multiple \<lparr>multiple = - 1\<rparr>) = - 1" by simp
next
  have "unat (3 :: glsl_uint) \<le> length (data buf)" using assms by simp
  from dispatch_closed_form [OF this, of "\<lparr>multiple = - 1\<rparr>"]
  obtain b' where d: "dispatch \<lparr>multiple = - 1\<rparr> 3 buf = Some b'"
    and t: "take 3 (data b') = [0, 4294967295, 4294967294]"
    by (auto simp: int_to_uint_id upt_rec)
  have u: "map uint (take 3 (data b')) = [0 mod 2 ^ 32, (- 1) mod 2 ^ 32, (- 2) mod 2 ^ 32]"
    by (simp add: t)
  show "\<exists>b'. dispatch \<lparr>multiple = - 1\<rparr> 3 buf = Some b' \<and>
               take 3 (data b') = [0, 4294967295, 4294967294] \<and>
               map uint (take 3 (data b')) = [0 mod 2 ^ 32, (- 1) mod 2 ^ 32, (- 2) mod 2 ^ 32]"
    by (intro exI [of _ b'] conjI d t u)
qed

theorem dispatch_negative_multiplier_witness:
  "3 \<le> length (data \<lparr>data = [1, 2, 3, 4]\<rparr>) \<and>
   sint (multiple \<lparr>multiple = - 1\<rparr>) = - 1 \<and>
   (\<exists>b'. dispatch \<lparr>multiple = - 1\<rparr> 3 \<lparr>data = [1, 2, 3, 4]\<rparr> = Some b' \<and>
         take 3 (data b') = [0, 4294967295, 4294967294] \<and>
         map uint (take 3 (data b')) = [0 mod 2 ^ 32, (- 1) mod 2 ^ 32, (- 2) mod 2 ^ 32])"
proof
  show h: "3 \<le> length (data \<lparr>data = [1, 2, 3, 4]\<rparr>)" by simp
  show "sint (multiple \<lparr>multiple = - 1\<rparr>) = - 1 \<and>
   (\<exists>b'. dispatch \<lparr>multiple = - 1\<rparr> 3 \<lparr>data = [1, 2, 3, 4]\<rparr> = Some b' \<and>
         take 3 (data b') = [0, 4294967295, 4294967294] \<and>
         map uint (take 3 (data b')) = [0 mod 2 ^ 32, (- 1) mod 2 ^ 32, (- 2) mod 2 ^ 32])"
    by (rule dispatch_negative_multiplier [OF h])
qed

text \<open>
  Claim C5. The dispatch is idempotent: dispatching again with the same \<open>N\<close> and the same
  multiplier over the buffer that the first dispatch left gives that same buffer.
\<close>

theorem dispatch_idempotent:
  assumes "unat N \<le> length (data buf)"
  shows "\<exists>buf'. dispatch pc N buf = Some buf' \<and> dispatch pc N buf' = Some buf'"
proof -
  let ?b = "scaled pc (set (invocation_ids N)) buf"
  have 1: "dispatch pc N buf = Some ?b" using assms by (rule dispatch_scaled)
  have "unat N \<le> length (data ?b)" using assms by (simp add: length_scaled)
  then have "dispatch pc N ?b = Some (scaled pc (set (invocation_ids N)) ?b)"
    by (rule dispatch_scaled)
  then have 2: "dispatch pc N ?b = Some ?b" by (simp only: scaled_twice)
  from 1 2 show ?thesis by blast
qed

theorem dispatch_idempotent_witness:
  "unat (2 :: glsl_uint) \<le> length (data \<lparr>data = [9, 9, 9]\<rparr>) \<and>
   (\<exists>buf'. dispatch \<lparr>multiple = 3\<rparr> 2 \<lparr>data = [9, 9, 9]\<rparr> = Some buf' \<and>
           dispatch \<lparr>multiple = 3\<rparr> 2 buf' = Some buf')"
proof
  show h: "unat (2 :: glsl_uint) \<le> length (data \<lparr>data = [9, 9, 9]\<rparr>)" by simp
  show "\<exists>buf'. dispatch \<lparr>multiple = 3\<rparr> 2 \<lparr>data = [9, 9, 9]\<rparr> = Some buf' \<and>
           dispatch \<lparr>multiple = 3\<rparr> 2 buf' = Some buf'"
    by (rule dispatch_idempotent [OF h])
qed

text \<open>
  Claim C6. The written values depend on \<open>N\<close> and the multiplier only: dispatches with the
  same \<open>N\<close> and multiplier over any two buffers with at least \<open>N\<close> slots both succeed and
  leave buffers that agree on every slot below \<open>N\<close>.
\<close>

theorem dispatch_deterministic:
  assumes "unat N \<le> length (data b1)" and "unat N \<le> length (data b2)"
  shows "\<exists>b1' b2'. dispatch pc N b1 = Some b1' \<and> dispatch pc N b2 = Some b2' \<and>
           take (unat N) (data b1') = take (unat N) (data b2') \<and>
           (\<forall>i<unat N. data b1' ! i = data b2' ! i)"
proof -
  let ?w = "map (\<lambda>i. word_of_nat i * int_to_uint (multiple pc)) [0..<unat N]"
  obtain b1' where 1: "dispatch pc N b1 = Some b1'" "data b1' = ?w @ drop (unat N) (data b1)"
    using dispatch_closed_form [OF assms(1)] by blast
  obtain b2' where 2: "dispatch pc N b2 = Some b2'" "data b2' = ?w @ drop (unat N) (data b2)"
    using dispatch_closed_form [OF assms(2)] by blast
  have t: "take (unat N) (data b1') = take (unat N) (data b2')" by (simp add: 1 2)
  have "\<forall>i<unat N. data b1' ! i = data b2' ! i" by (simp add: 1 2 nth_append)
  with 1 2 t show ?thesis by blast
qed

theorem dispatch_deterministic_witness:
  "(unat (2 :: glsl_uint) \<le> length (data \<lparr>data = [9, 9, 9]\<rparr>) \<and>
    unat (2 :: glsl_uint) \<le> length (data \<lparr>data = [4, 5]\<rparr>)) \<and>
   (\<exists>b1' b2'. dispatch \<lparr>multiple = 3\<rparr> 2 \<lparr>data = [9, 9, 9]\<rparr> = Some b1' \<and>
       dispatch \<lparr>multiple = 3\<rparr> 2 \<lparr>data = [4, 5]\<rparr> = Some b2' \<and>
       take (unat (2 :: glsl_uint)) (data b1') = take (unat (2 :: glsl_uint)) (data b2') \<and>
       (\<forall>i<unat (2 :: glsl_uint). data b1' ! i = data b2' ! i))"
proof
  have h1: "unat (2 :: glsl_uint) \<le> length (data \<lparr>data = [9, 9, 9]\<rparr>)" by simp
  have h2: "unat (2 :: glsl_uint) \<le> length (data \<lparr>data = [4, 5]\<rparr>)" by simp
  from h1 h2
  show "unat (2 :: glsl_uint) \<le> length (data \<lparr>data = [9, 9, 9]\<rparr>) \<and>
    unat (2 :: glsl_uint) \<le> length (data \<lparr>data = [4, 5]\<rparr>)" by (intro conjI)
  show "\<exists>b1' b2'. dispatch \<lparr>multiple = 3\<rparr> 2 \<lparr>data = [9, 9, 9]\<rparr> = Some b1' \<and>
       dispatch \<lparr>multiple = 3\<rparr> 2 \<lparr>data = [4, 5]\<rparr> = Some b2' \<and>
       take (unat (2 :: glsl_uint)) (data b1') = take (unat (2 :: glsl_uint)) (data b2') \<and>
       (\<forall>i<unat (2 :: glsl_uint). data b1' ! i = data b2' ! i)"
    by (rule dispatch_deterministic [OF h1 h2])
qed

text \<open>
  Claim C7. When the buffer has at least \<open>N\<close> slots the dispatch does not fail; the slot
  that the invocation with an identifier below \<open>N\<close> stores to lies inside every buffer of
  that length, so the invocation does not fail; and an invocation of \<open>main\<close> fails in no
  other way than by a store outside the buffer.
\<close>

theorem dispatch_in_bounds:
  assumes "unat N \<le> length (data buf)"
  shows "(\<exists>buf'. dispatch pc N buf = Some buf') \<and>
         (\<forall>i<unat N. \<forall>b :: Data. length (data b) = length (data buf) \<longrightarrow>
              unat (vec_x (global_id (word_of_nat i))) < length (data b) \<and>
              main pc (global_id (word_of_nat i)) b \<noteq> None) \<and>
         (\<forall>g (b :: Data). main pc g b = None \<longleftrightarrow> \<not> unat (vec_x g) < length (data b))"
proof (intro conjI allI impI)
  show "\<exists>buf'. dispatch pc N buf = Some buf'" using assms by (simp add: dispatch_scaled)
next
  fix i and b :: Data assume i: "i < unat N" and b: "length (data b) = length (data buf)"
  show "unat (vec_x (global_id (word_of_nat i))) < length (data b)"
    using i b assms by (simp add: global_id_def unat_invocation_id)
  then show "main pc (global_id (word_of_nat i)) b \<noteq> None"
    by (simp add: main_None)
next
  fix g and b :: Data show "main pc g b = None \<longleftrightarrow> \<not> unat (vec_x g) < length (data b)"
    by (simp add: main_None not_less)
qed

theorem dispatch_in_bounds_witness:
  "unat (3 :: glsl_uint) \<le> length (data \<lparr>data = [7, 7, 7, 7]\<rparr>) \<and>
   (\<exists>buf'. dispatch \<lparr>multiple = 5\<rparr> 3 \<lparr>data = [7, 7, 7, 7]\<rparr> = Some buf') \<and>
   (2 < unat (3 :: glsl_uint) \<and>
    length (data \<lparr>data = [1, 2, 3, 4]\<rparr>) = length (data \<lparr>data = [7, 7, 7, 7]\<rparr>) \<and>
    unat (vec_x (global_id (word_of_nat 2))) < length (data \<lparr>data = [1, 2, 3, 4]\<rparr>) \<and>
    main \<lparr>multiple = 5\<rparr> (global_id (word_of_nat 2)) \<lparr>data = [1, 2, 3, 4]\<rparr> \<noteq> None) \<and>
   (main \<lparr>multiple = 5\<rparr> (global_id 4) \<lparr>data = [1, 2, 3, 4]\<rparr> = None \<longleftrightarrow>
      \<not> unat (vec_x (global_id 4)) < length (data \<lparr>data = [1, 2, 3, 4]\<rparr>))"
proof -
  have h: "unat (3 :: glsl_uint) \<le> length (data \<lparr>data = [7, 7, 7, 7]\<rparr>)" by simp
  note t = dispatch_in_bounds [OF h, of "\<lparr>multiple = 5\<rparr>"]
  have i: "2 < unat (3 :: glsl_uint)" by simp
  have l: "length (data \<lparr>data = [1, 2, 3, 4]\<rparr>) = length (data \<lparr>data = [7, 7, 7, 7]\<rparr>)" by simp
  note t1 = t [THEN conjunct1]
  note t2 = t [THEN conjunct2, THEN conjunct1, rule_format, OF i l]
  note t3 = t [THEN conjunct2, THEN conjunct2, rule_format,
               of "global_id 4" "\<lparr>data = [1, 2, 3, 4]\<rparr>"]
  show ?thesis
    by (intro conjI h t1 i l t2 [THEN conjunct1] t2 [THEN conjunct2] t3)
qed

text \<open>
  Claim C8. The final buffer does not depend on the order of the invocations: running the
  \<open>N\<close> invocations one after the other in the order of any permutation of the identifiers
  gives the buffer that the dispatch in index order gives.
\<close>

theorem dispatch_order_independent:
  assumes "unat N \<le> length (data buf)" and "mset ps = mset (invocation_ids N)"
  shows "\<exists>buf'. dispatch pc N buf = Some buf' \<and> run_invocations pc ps buf = Some buf'"
proof -
  have s: "set ps = set (invocation_ids N)" using assms(2) by (rule mset_eq_setD)
  have 1: "dispatch pc N buf = Some (scaled pc (set (invocation_ids N)) buf)"
    using assms(1) by (rule dispatch_scaled)
  have "\<forall>i\<in>set ps. unat i < length (data buf)"
    using invocation_ids_in_bounds [OF assms(1)] by (simp only: s)
  then have "run_invocations pc ps buf = Some (scaled pc (set ps) buf)"
    by (rule run_invocations_scaled)
  then show ?thesis using 1 by (simp add: s)
qed

theorem dispatch_order_independent_witness:
  "(unat (3 :: glsl_uint) \<le> length (data \<lparr>data = [7, 7, 7, 7]\<rparr>) \<and>
    mset [2, 0, 1] = mset (invocation_ids 3)) \<and>
   (\<exists>buf'. dispatch \<lparr>multiple = 5\<rparr> 3 \<lparr>data = [7, 7, 7, 7]\<rparr> = Some buf' \<and>
           run_invocations \<lparr>multiple = 5\<rparr> [2, 0, 1] \<lparr>data = [7, 7, 7, 7]\<rparr> = Some buf')"
proof
  have h: "unat (3 :: glsl_uint) \<le> length (data \<lparr>data = [7, 7, 7, 7]\<rparr>)" by simp
  have p: "mset [2, 0, 1] = mset (invocation_ids 3)"
    by (simp add: invocation_ids_def upt_rec)
  from h p
  show "unat (3 :: glsl_uint) \<le> length (data \<lparr>data = [7, 7, 7, 7]\<rparr>) \<and>
    mset [2, 0, 1] = mset (invocation_ids 3)" by (intro conjI)
  show "\<exists>buf'. dispatch \<lparr>multiple = 5\<rparr> 3 \<lparr>data = [7, 7, 7, 7]\<rparr> = Some buf' \<and>
           run_invocations \<lparr>multiple = 5\<rparr> [2, 0, 1] \<lparr>data = [7, 7, 7, 7]\<rparr> = Some buf'"
    by (rule dispatch_order_independent [OF h p])
qed

section \<open>Properties of the enumeration tables\<close>

text \<open>
  Claim C9. In every enumeration table of the repository, each enumerator that is given a
  literal has that literal as its value, and each alias has a value, the value of the
  enumerator it names. In particular \<open>VK_COLORSPACE_SRGB_NONLINEAR_KHR\<close> and
  \<open>VK_COLOR_SPACE_SRGB_NONLINEAR_KHR\<close> are 0, \<open>VK_COLOR_SPACE_DCI_P3_LINEAR_EXT\<close> and
  \<open>VK_COLOR_SPACE_DISPLAY_P3_LINEAR_EXT\<close> are 1000104003, the four
  \<open>VK_ATTACHMENT_STORE_OP_NONE\<close> constants are 1000301000, and the
  \<open>VK_IMAGE_ASPECT_*_KHR\<close> aliases equal their counterparts without \<open>KHR\<close>.
\<close>

theorem enum_tables_values:
  "(\<forall>T\<in>set enum_tables. \<forall>(name, init)\<in>set T.
      case init of
        Lit v \<Rightarrow> enum_value T name = Some v
      | Ref c \<Rightarrow> enum_value T name \<noteq> None \<and> enum_value T name = enum_value T c) \<and>
   (enum_value VkColorSpaceKHR ''VK_COLORSPACE_SRGB_NONLINEAR_KHR'' = Some 0 \<and>
    enum_value VkColorSpaceKHR ''VK_COLOR_SPACE_SRGB_NONLINEAR_KHR'' = Some 0) \<and>
   (enum_value VkColorSpaceKHR ''VK_COLOR_SPACE_DCI_P3_LINEAR_EXT'' = Some 1000104003 \<and>
    enum_value VkColorSpaceKHR ''VK_COLOR_SPACE_DISPLAY_P3_LINEAR_EXT'' = Some 1000104003) \<and>
   (enum_value VkAttachmentStoreOp ''VK_ATTACHMENT_STORE_OP_NONE_KHR'' = Some 1000301000 \<and>
    enum_value VkAttachmentStoreOp ''VK_ATTACHMENT_STORE_OP_NONE_QCOM'' = Some 1000301000 \<and>
    enum_value VkAttachmentStoreOp ''VK_ATTACHMENT_STORE_OP_NONE_EXT'' = Some 1000301000 \<and>
    enum_value VkAttachmentStoreOp ''VK_ATTACHMENT_STORE_OP_NONE'' = Some 1000301000) \<and>
   (enum_value VkImageAspectFlagBits ''VK_IMAGE_ASPECT_PLANE_0_BIT_KHR'' =
      enum_value VkImageAspectFlagBits ''VK_IMAGE_ASPECT_PLANE_0_BIT'' \<and>
    enum_value VkImageAspectFlagBits ''VK_IMAGE_ASPECT_PLANE_1_BIT_KHR'' =
      enum_value VkImageAspectFlagBits ''VK_IMAGE_ASPECT_PLANE_1_BIT'' \<and>
    enum_value VkImageAspectFlagBits ''VK_IMAGE_ASPECT_PLANE_2_BIT_KHR'' =
      enum_value VkImageAspectFlagBits ''VK_IMAGE_ASPECT_PLANE_2_BIT'' \<and>
    enum_value VkImageAspectFlagBits ''VK_IMAGE_ASPECT_NONE_KHR'' =
      enum_value VkImageAspectFlagBits ''VK_IMAGE_ASPECT_NONE'' \<and>
    enum_value VkImageAspectFlagBits ''VK_IMAGE_ASPECT_PLANE_0_BIT'' = Some 16 \<and>
    enum_value VkImageAspectFlagBits ''VK_IMAGE_ASPECT_PLANE_1_BIT'' = Some 32 \<and>
    enum_value VkImageAspectFlagBits ''VK_IMAGE_ASPECT_PLANE_2_BIT'' = Some 64 \<and>
    enum_value VkImageAspectFlagBits ''VK_IMAGE_ASPECT_NONE'' = Some 0)"
proof (intro conjI)
  show "\<forall>T\<in>set enum_tables. \<forall>(name, init)\<in>set T.
      case init of
        Lit v \<Rightarrow> enum_value T name = Some v
      | Ref c \<Rightarrow> enum_value T name \<noteq> None \<and> enum_value T name = enum_value T c"
  proof (intro ballI)
    fix T e assume T: "T \<in> set enum_tables" and e: "e \<in> set T"
    obtain name init where ne: "e = (name, init)" by (cases e)
    from enum_value_entries [OF enum_tables_compile [OF T] e [unfolded ne]]
    show "case e of (name, init) \<Rightarrow>
      case init of
        Lit v \<Rightarrow> enum_value T name = Some v
      | Ref c \<Rightarrow> enum_value T name \<noteq> None \<and> enum_value T name = enum_value T c"
      unfolding ne prod.case .
  qed
next
  note cs = compiles_VkColorSpaceKHR
  have c0: "(''VK_COLOR_SPACE_SRGB_NONLINEAR_KHR'', Lit 0) \<in> set VkColorSpaceKHR"
    and a0: "(''VK_COLORSPACE_SRGB_NONLINEAR_KHR'', Ref ''VK_COLOR_SPACE_SRGB_NONLINEAR_KHR'')
               \<in> set VkColorSpaceKHR"
    and c3: "(''VK_COLOR_SPACE_DISPLAY_P3_LINEAR_EXT'', Lit 1000104003) \<in> set VkColorSpaceKHR"
    and a3: "(''VK_COLOR_SPACE_DCI_P3_LINEAR_EXT'', Ref ''VK_COLOR_SPACE_DISPLAY_P3_LINEAR_EXT'')
               \<in> set VkColorSpaceKHR"
    by (simp_all add: VkColorSpaceKHR_def)
  show "enum_value VkColorSpaceKHR ''VK_COLORSPACE_SRGB_NONLINEAR_KHR'' = Some 0"
    by (rule enum_value_Ref [OF cs a0 c0, THEN conjunct1])
  show "enum_value VkColorSpaceKHR ''VK_COLOR_SPACE_SRGB_NONLINEAR_KHR'' = Some 0"
    by (rule enum_value_Lit [OF cs c0])
  show "enum_value VkColorSpaceKHR ''VK_COLOR_SPACE_DCI_P3_LINEAR_EXT'' = Some 1000104003"
    by (rule enum_value_Ref [OF cs a3 c3, THEN conjunct1])
  show "enum_value VkColorSpaceKHR ''VK_COLOR_SPACE_DISPLAY_P3_LINEAR_EXT'' = Some 1000104003"
    by (rule enum_value_Lit [OF cs c3])
next
  note cs = compiles_VkAttachmentStoreOp
  have n: "(''VK_ATTACHMENT_STORE_OP_NONE'', Lit 1000301000) \<in> set VkAttachmentStoreOp"
    and k: "(''VK_ATTACHMENT_STORE_OP_NONE_KHR'', Ref ''VK_ATTACHMENT_STORE_OP_NONE'')
              \<in> set VkAttachmentStoreOp"
    and q: "(''VK_ATTACHMENT_STORE_OP_NONE_QCOM'', Ref ''VK_ATTACHMENT_STORE_OP_NONE'')
              \<in> set VkAttachmentStoreOp"
    and x: "(''VK_ATTACHMENT_STORE_OP_NONE_EXT'', Ref ''VK_ATTACHMENT_STORE_OP_NONE'')
              \<in> set VkAttachmentStoreOp"
    by (simp_all add: VkAttachmentStoreOp_def)
  show "enum_value VkAttachmentStoreOp ''VK_ATTACHMENT_STORE_OP_NONE_KHR'' = Some 1000301000"
    by (rule enum_value_Ref [OF cs k n, THEN conjunct1])
  show "enum_value VkAttachmentStoreOp ''VK_ATTACHMENT_STORE_OP_NONE_QCOM'' = Some 1000301000"
    by (rule enum_value_Ref [OF cs q n, THEN conjunct1])
  show "enum_value VkAttachmentStoreOp ''VK_ATTACHMENT_STORE_OP_NONE_EXT'' = Some 1000301000"
    by (rule enum_value_Ref [OF cs x n, THEN conjunct1])
  show "enum_value VkAttachmentStoreOp ''VK_ATTACHMENT_STORE_OP_NONE'' = Some 1000301000"
    by (rule enum_value_Lit [OF cs n])
next
  note cs = compiles_VkImageAspectFlagBits
  have p0: "(''VK_IMAGE_ASPECT_PLANE_0_BIT'', Lit 0x00000010) \<in> set VkImageAspectFlagBits"
    and p1: "(''VK_IMAGE_ASPECT_PLANE_1_BIT'', Lit 0x00000020) \<in> set VkImageAspectFlagBits"
    and p2: "(''VK_IMAGE_ASPECT_PLANE_2_BIT'', Lit 0x00000040) \<in> set VkImageAspectFlagBits"
    and no: "(''VK_IMAGE_ASPECT_NONE'', Lit 0) \<in> set VkImageAspectFlagBits"
    and k0: "(''VK_IMAGE_ASPECT_PLANE_0_BIT_KHR'', Ref ''VK_IMAGE_ASPECT_PLANE_0_BIT'')
               \<in> set VkImageAspectFlagBits"
    and k1: "(''VK_IMAGE_ASPECT_PLANE_1_BIT_KHR'', Ref ''VK_IMAGE_ASPECT_PLANE_1_BIT'')
               \<in> set VkImageAspectFlagBits"
    and k2: "(''VK_IMAGE_ASPECT_PLANE_2_BIT_KHR'', Ref ''VK_IMAGE_ASPECT_PLANE_2_BIT'')
               \<in> set VkImageAspectFlagBits"
    and kn: "(''VK_IMAGE_ASPECT_NONE_KHR'', Ref ''VK_IMAGE_ASPECT_NONE'')
               \<in> set VkImageAspectFlagBits"
    by (simp_all add: VkImageAspectFlagBits_def)
  show "enum_value VkImageAspectFlagBits ''VK_IMAGE_ASPECT_PLANE_0_BIT_KHR'' =
      enum_value VkImageAspectFlagBits ''VK_IMAGE_ASPECT_PLANE_0_BIT''"
    by (rule enum_value_Ref [OF cs k0 p0, THEN conjunct2])
  show "enum_value VkImageAspectFlagBits ''VK_IMAGE_ASPECT_PLANE_1_BIT_KHR'' =
      enum_value VkImageAspectFlagBits ''VK_IMAGE_ASPECT_PLANE_1_BIT''"
    by (rule enum_value_Ref [OF cs k1 p1, THEN conjunct2])
  show "enum_value VkImageAspectFlagBits ''VK_IMAGE_ASPECT_PLANE_2_BIT_KHR'' =
      enum_value VkImageAspectFlagBits ''VK_IMAGE_ASPECT_PLANE_2_BIT''"
    by (rule enum_value_Ref [OF cs k2 p2, THEN conjunct2])
  show "enum_value VkImageAspectFlagBits ''VK_IMAGE_ASPECT_NONE_KHR'' =
      enum_value VkImageAspectFlagBits ''VK_IMAGE_ASPECT_NONE''"
    by (rule enum_value_Ref [OF cs kn no, THEN conjunct2])
  show "enum_value VkImageAspectFlagBits ''VK_IMAGE_ASPECT_PLANE_0_BIT'' = Some 16"
    using enum_value_Lit [OF cs p0] by simp
  show "enum_value VkImageAspectFlagBits ''VK_IMAGE_ASPECT_PLANE_1_BIT'' = Some 32"
    using enum_value_Lit [OF cs p1] by simp
  show "enum_value VkImageAspectFlagBits ''VK_IMAGE_ASPECT_PLANE_2_BIT'' = Some 64"
    using enum_value_Lit [OF cs p2] by simp
  show "enum_value VkImageAspectFlagBits ''VK_IMAGE_ASPECT_NONE'' = Some 0"
    by (rule enum_value_Lit [OF cs no])
qed

theorem enum_tables_values_witness:
  "VkAttachmentLoadOp \<in> set enum_tables \<and>
   (''VK_ATTACHMENT_LOAD_OP_NONE_KHR'', Ref ''VK_ATTACHMENT_LOAD_OP_NONE'')
      \<in> set VkAttachmentLoadOp \<and>
   enum_value VkAttachmentLoadOp ''VK_ATTACHMENT_LOAD_OP_NONE_KHR'' \<noteq> None \<and>
   enum_value VkAttachmentLoadOp ''VK_ATTACHMENT_LOAD_OP_NONE_KHR'' =
     enum_value VkAttachmentLoadOp ''VK_ATTACHMENT_LOAD_OP_NONE''"
proof -
  have T: "VkAttachmentLoadOp \<in> set enum_tables" by (simp add: enum_tables_def)
  have e: "(''VK_ATTACHMENT_LOAD_OP_NONE_KHR'', Ref ''VK_ATTACHMENT_LOAD_OP_NONE'')
             \<in> set VkAttachmentLoadOp"
    by (simp add: VkAttachmentLoadOp_def)
  note t = enum_tables_values [THEN conjunct1, THEN bspec, OF T, THEN bspec, OF e,
                               unfolded prod.case enum_init.case]
  show ?thesis by (intro conjI T e t [THEN conjunct1] t [THEN conjunct2])
qed

text \<open>
  Claim C10. In each of the four enumerations of flag bits, the non-zero constants that are
  not aliases are distinct, each is a power of two, any two different ones have no bit in
  common, and a bitwise or of such flags determines the set of flags it was built from.
\<close>

theorem flag_bits_disjoint:
  assumes "T \<in> set flag_bit_enums"
  shows "distinct (flag_bits T) \<and>
         (\<forall>f\<in>set (flag_bits T). \<exists>k. f = 2 ^ k) \<and>
         (\<forall>f\<in>set (flag_bits T). \<forall>g\<in>set (flag_bits T). f \<noteq> g \<longrightarrow> f AND g = 0) \<and>
         (\<forall>fs gs. set fs \<subseteq> set (flag_bits T) \<and> set gs \<subseteq> set (flag_bits T) \<and>
                  or_flags fs = or_flags gs \<longrightarrow> set fs = set gs)"
proof (intro conjI ballI allI impI)
  note p = flag_bits_pow2 [OF assms]
  show "distinct (flag_bits T)" using assms by (rule flag_bits_distinct)
  show "\<exists>k. f = 2 ^ k" if "f \<in> set (flag_bits T)" for f using p that by (rule bspec)
  show "f AND g = 0" if "f \<in> set (flag_bits T)" "g \<in> set (flag_bits T)" "f \<noteq> g" for f g
    using p [THEN bspec, OF that(1)] p [THEN bspec, OF that(2)] that(3)
    by (rule pow2_flags_disjoint)
  show "set fs = set gs"
    if "set fs \<subseteq> set (flag_bits T) \<and> set gs \<subseteq> set (flag_bits T) \<and> or_flags fs = or_flags gs"
    for fs gs
    using p that [THEN conjunct1] that [THEN conjunct2, THEN conjunct1]
      that [THEN conjunct2, THEN conjunct2]
    by (rule or_flags_decompose)
qed

theorem flag_bits_disjoint_witness:
  "VkImageAspectFlagBits \<in> set flag_bit_enums \<and>
   distinct (flag_bits VkImageAspectFlagBits) \<and>
   (64 \<in> set (flag_bits VkImageAspectFlagBits) \<and> (\<exists>k. (64 :: int) = 2 ^ k)) \<and>
   (1 \<in> set (flag_bits VkImageAspectFlagBits) \<and> 2 \<in> set (flag_bits VkImageAspectFlagBits) \<and>
    (1 :: int) \<noteq> 2 \<and> (1 :: int) AND 2 = 0) \<and>
   ((set [1, 4] \<subseteq> set (flag_bits VkImageAspectFlagBits) \<and>
     set [4, 1, 1] \<subseteq> set (flag_bits VkImageAspectFlagBits) \<and>
     or_flags [1, 4] = or_flags [4, 1, 1]) \<and>
    set [1, 4 :: int] = set [4, 1, 1])"
proof -
  have T: "VkImageAspectFlagBits \<in> set flag_bit_enums" by (simp add: flag_bit_enums_def)
  note t = flag_bits_disjoint [OF T]
  have m64: "64 \<in> set (flag_bits VkImageAspectFlagBits)"
    and m1: "1 \<in> set (flag_bits VkImageAspectFlagBits)"
    and m2: "2 \<in> set (flag_bits VkImageAspectFlagBits)"
    by (simp_all add: VkImageAspectFlagBits_def)
  have ne: "(1 :: int) \<noteq> 2" by simp
  have d: "set [1, 4] \<subseteq> set (flag_bits VkImageAspectFlagBits) \<and>
     set [4, 1, 1] \<subseteq> set (flag_bits VkImageAspectFlagBits) \<and>
     or_flags [1, 4] = or_flags [4, 1, 1]"
    by (simp add: VkImageAspectFlagBits_def)
  note t1 = t [THEN conjunct1]
  note t2 = t [THEN conjunct2, THEN conjunct1, THEN bspec, OF m64]
  note t3 = t [THEN conjunct2, THEN conjunct2, THEN conjunct1, THEN bspec, OF m1, THEN bspec,
               OF m2, THEN mp, OF ne]
  note t4 = t [THEN conjunct2, THEN conjunct2, THEN conjunct2, THEN spec, THEN spec, THEN mp,
               OF d]
  show ?thesis by (intro conjI T t1 m64 t2 m1 m2 ne t3 d t4)
qed

end
